theory Spec2Isabelle
  imports Complex_Main
begin

section \<open>The sequential id generator of the test mocker\<close>

text \<open>
  The class \<^verbatim>\<open>StringIdGenerator\<close> holds two fields: \<^verbatim>\<open>_nextId\<close>, an array of
  indices into the alphabet with the least significant digit first, and \<^verbatim>\<open>_chars\<close>,
  the alphabet, a constructor parameter with a default value.
\<close>

record StringIdGenerator =
  nextId :: "nat list"
  chars :: string

definition default_chars :: string where
  "default_chars = ''abcdefghijklmnopqrstuvwxyzABCDEFGHIJKLMNOPQRSTUVWXYZ''"

text \<open>\<^verbatim>\<open>new StringIdGenerator(_chars)\<close>: the field initialiser sets \<^verbatim>\<open>_nextId = [0]\<close>.\<close>

definition new_StringIdGenerator_with :: "string \<Rightarrow> StringIdGenerator" where
  "new_StringIdGenerator_with cs = \<lparr>nextId = [0], chars = cs\<rparr>"

text \<open>\<^verbatim>\<open>new StringIdGenerator()\<close>, the only construction the module performs.\<close>

definition new_StringIdGenerator :: StringIdGenerator where
  "new_StringIdGenerator = new_StringIdGenerator_with default_chars"

text \<open>
  \<^verbatim>\<open>this._chars[char]\<close>: indexing a string yields the one-character string at that
  position, and \<^verbatim>\<open>undefined\<close> out of range, which \<^verbatim>\<open>join('')\<close> renders as the empty
  string.
\<close>

definition char_at :: "string \<Rightarrow> nat \<Rightarrow> string" where
  "char_at cs d = (if d < length cs then [cs ! d] else [])"

text \<open>
  The loop of \<^verbatim>\<open>next\<close>: every digit's character is put at the front of \<^verbatim>\<open>r\<close>
  (\<^verbatim>\<open>unshift\<close>), in storage order.
\<close>

fun unshift_all :: "string \<Rightarrow> nat list \<Rightarrow> string list \<Rightarrow> string list" where
  "unshift_all cs [] r = r"
| "unshift_all cs (d # ds) r = unshift_all cs ds (char_at cs d # r)"

text \<open>
  The loop of \<^verbatim>\<open>_increment\<close>, with its index \<^verbatim>\<open>i\<close>: the digit is incremented in
  place; when it reaches the alphabet's length it is reset and the loop goes on to the
  next digit, otherwise the method returns. Leaving the loop appends a new zero digit.
\<close>

function increment_from :: "nat \<Rightarrow> nat \<Rightarrow> nat list \<Rightarrow> nat list" where
  "increment_from n i xs =
     (if i < length xs then
        (let val = xs ! i + 1; xs' = xs[i := val] in
         if val \<ge> n then increment_from n (i + 1) (xs'[i := 0]) else xs')
      else xs @ [0])"
  by pat_completeness auto
termination
  by (relation "measure (\<lambda>(n, i, xs). length xs - i)") auto

declare increment_from.simps [simp del]

definition increment :: "StringIdGenerator \<Rightarrow> StringIdGenerator" where
  "increment g = g\<lparr>nextId := increment_from (length (chars g)) 0 (nextId g)\<rparr>"

text \<open>\<^verbatim>\<open>next()\<close> returns the rendering of the digits it held and the generator after the increment.\<close>

definition next_id :: "StringIdGenerator \<Rightarrow> string \<times> StringIdGenerator" where
  "next_id g = (concat (unshift_all (chars g) (nextId g) []), increment g)"

text \<open>The generator after \<open>k\<close> calls of \<^verbatim>\<open>next\<close>, and what call number \<open>k\<close> (from 0) returns.\<close>

fun after_calls :: "nat \<Rightarrow> StringIdGenerator \<Rightarrow> StringIdGenerator" where
  "after_calls 0 g = g"
| "after_calls (Suc k) g = after_calls k (snd (next_id g))"

definition nth_output :: "StringIdGenerator \<Rightarrow> nat \<Rightarrow> string" where
  "nth_output g k = fst (next_id (after_calls k g))"

text \<open>The strings returned by the first \<open>N\<close> calls, in order.\<close>

fun outputs :: "nat \<Rightarrow> StringIdGenerator \<Rightarrow> string list" where
  "outputs 0 g = []"
| "outputs (Suc k) g = fst (next_id g) # outputs k (snd (next_id g))"

subsection \<open>Auxiliary notions for the proofs about the generator\<close>

text \<open>
  The increment loop as a structural recursion over the digits that are still to be
  visited; \<open>increment_from\<close> is shown below to compute it.
\<close>

fun carry :: "nat \<Rightarrow> nat list \<Rightarrow> nat list" where
  "carry n [] = [0]"
| "carry n (d # ds) = (if d + 1 \<ge> n then 0 # carry n ds else (d + 1) # ds)"

text \<open>
  The number a digit sequence stands for in bijective base \<open>n\<close> (digit \<open>d\<close> counts
  as \<open>d + 1\<close>, least significant digit first).
\<close>

definition bval :: "nat \<Rightarrow> nat list \<Rightarrow> nat" where
  "bval n ds = foldr (\<lambda>d v. d + 1 + n * v) ds 0"

text \<open>Every stored digit is an index into the alphabet.\<close>

definition digits_ok :: "StringIdGenerator \<Rightarrow> bool" where
  "digits_ok g \<longleftrightarrow> list_all (\<lambda>d. d < length (chars g)) (nextId g)"

text \<open>
  Parsing as the specification words it: every character of an output is mapped back to
  its index in the alphabet (\<^verbatim>\<open>indexOf\<close>, the first position holding it), and the
  indices, read most significant first, are reversed into storage order.
\<close>

definition index_of :: "string \<Rightarrow> char \<Rightarrow> nat" where
  "index_of cs c = length (takeWhile (\<lambda>x. x \<noteq> c) cs)"

definition spec_parse :: "string \<Rightarrow> string \<Rightarrow> nat list" where
  "spec_parse cs s = rev (map (index_of cs) s)"

section \<open>The pager component\<close>

text \<open>
  Page indices are modelled as integers; scroll offsets and pixel positions as reals:
  the component only compares them and adds two of them. A callback prop is optional
  (\<^verbatim>\<open>onPageSelected?.(index)\<close>): the props record says which ones the caller supplied,
  and calling an absent one has no effect.
\<close>

record Props =
  initialPage :: "int option"
  has_onPageSelected :: bool
  has_onPageSelecting :: bool
  has_onPageScrollStateChanged :: bool

text \<open>The destructuring default \<^verbatim>\<open>initialPage = 0\<close>.\<close>

definition initialPage_of :: "Props \<Rightarrow> int" where
  "initialPage_of props = (case initialPage props of None \<Rightarrow> 0 | Some p \<Rightarrow> p)"

text \<open>
  What a handler does to the outside: the caller's callbacks, the \<^verbatim>\<open>setPage\<close> command
  given to the platform's pager view, and \<^verbatim>\<open>window.scrollTo\<close>.
\<close>

datatype effect =
    OnPageSelected int
  | OnPageSelecting int
  | OnPageScrollStateChanged string
  | PagerViewSetPage int
  | WindowScrollTo real real

text \<open>A caller that supplies every callback and leaves \<^verbatim>\<open>initialPage\<close> to its default.\<close>

definition all_callbacks :: Props where
  "all_callbacks =
     \<lparr>initialPage = None, has_onPageSelected = True, has_onPageSelecting = True,
      has_onPageScrollStateChanged = True\<rparr>"

definition opt_call :: "bool \<Rightarrow> effect \<Rightarrow> effect list" where
  "opt_call present e = (if present then [e] else [])"

fun is_selecting :: "effect \<Rightarrow> bool" where
  "is_selecting (OnPageSelecting _) = True"
| "is_selecting _ = False"

record Pager =
  selectedPage :: int

subsection \<open>The native variant\<close>

text \<open>
  The state hook and the four refs of the component. \<open>pagerView\<close> says whether
  \<^verbatim>\<open>pagerView.current\<close> holds the mounted platform view.
\<close>

record NativePager = Pager +
  lastOffset :: real
  lastDirection :: int
  scrollState :: string
  pagerView :: bool

definition Pager_native :: "Props \<Rightarrow> NativePager" where
  "Pager_native props =
     \<lparr>selectedPage = 0, lastOffset = 0, lastDirection = 0, scrollState = [], pagerView = False\<rparr>"

text \<open>Once the platform view is rendered, the ref holds it.\<close>

definition mounted :: "NativePager \<Rightarrow> NativePager" where
  "mounted st = st\<lparr>pagerView := True\<rparr>"

text \<open>\<^verbatim>\<open>pagerView.current?.setPage(index)\<close>\<close>

definition pagerView_setPage :: "NativePager \<Rightarrow> int \<Rightarrow> effect list" where
  "pagerView_setPage st index = (if pagerView st then [PagerViewSetPage index] else [])"

definition setPage_native :: "NativePager \<Rightarrow> int \<Rightarrow> NativePager \<times> effect list" where
  "setPage_native st index = (st, pagerView_setPage st index)"

definition onPageSelectedInner :: "Props \<Rightarrow> NativePager \<Rightarrow> int \<Rightarrow> NativePager \<times> effect list" where
  "onPageSelectedInner props st position =
     (st\<lparr>selectedPage := position\<rparr>,
      opt_call (has_onPageSelected props) (OnPageSelected position))"

definition onPageScroll :: "Props \<Rightarrow> NativePager \<Rightarrow> int \<Rightarrow> real \<Rightarrow> NativePager \<times> effect list" where
  "onPageScroll props st position offset =
     (if offset = 0 then (st, [])
      else
        let (st', fx) =
          (if scrollState st = ''settling'' then
             (if lastDirection st = - 1 \<and> offset < lastOffset st then
                (st\<lparr>selectedPage := position, lastDirection := 0\<rparr>,
                 opt_call (has_onPageSelecting props) (OnPageSelecting position))
              else if lastDirection st = 1 \<and> offset > lastOffset st then
                (st\<lparr>selectedPage := position + 1, lastDirection := 0\<rparr>,
                 opt_call (has_onPageSelecting props) (OnPageSelecting (position + 1)))
              else (st, []))
           else
             (if offset < lastOffset st then (st\<lparr>lastDirection := - 1\<rparr>, [])
              else if offset > lastOffset st then (st\<lparr>lastDirection := 1\<rparr>, [])
              else (st, [])))
        in (st'\<lparr>lastOffset := offset\<rparr>, fx))"

definition handlePageScrollStateChanged ::
  "Props \<Rightarrow> NativePager \<Rightarrow> string \<Rightarrow> NativePager \<times> effect list" where
  "handlePageScrollStateChanged props st pageScrollState =
     (st\<lparr>scrollState := pageScrollState\<rparr>,
      opt_call (has_onPageScrollStateChanged props) (OnPageScrollStateChanged pageScrollState))"

definition onTabBarSelect_native :: "Props \<Rightarrow> NativePager \<Rightarrow> int \<Rightarrow> NativePager \<times> effect list" where
  "onTabBarSelect_native props st index =
     (st, pagerView_setPage st index @ opt_call (has_onPageSelecting props) (OnPageSelecting index))"

text \<open>
  The events the component reacts to, and the handler each one is dispatched to. Events
  are delivered one at a time; \<open>run\<close> collects the effects in order.
\<close>

datatype event =
    PageScroll int real
  | PageScrollStateChanged string
  | PageSelected int
  | SetPage int
  | TabBarSelect int

fun step :: "Props \<Rightarrow> NativePager \<Rightarrow> event \<Rightarrow> NativePager \<times> effect list" where
  "step props st (PageScroll position offset) = onPageScroll props st position offset"
| "step props st (PageScrollStateChanged ph) = handlePageScrollStateChanged props st ph"
| "step props st (PageSelected position) = onPageSelectedInner props st position"
| "step props st (SetPage index) = setPage_native st index"
| "step props st (TabBarSelect index) = onTabBarSelect_native props st index"

fun run :: "Props \<Rightarrow> NativePager \<Rightarrow> event list \<Rightarrow> NativePager \<times> effect list" where
  "run props st [] = (st, [])"
| "run props st (e # es) =
     (let (st', fx) = step props st e; (st'', fx') = run props st' es in (st'', fx @ fx'))"

text \<open>
  The notifications of a run that come from the scroll handler, which is where the
  direction of a gesture is worked out: every event is dispatched as in \<open>run\<close>, and
  only the effects of \<open>onPageScroll\<close> are collected.
\<close>

fun scroll_effects :: "Props \<Rightarrow> NativePager \<Rightarrow> event \<Rightarrow> effect list" where
  "scroll_effects props st (PageScroll position offset) =
     snd (onPageScroll props st position offset)"
| "scroll_effects props st _ = []"

fun run_scroll_effects :: "Props \<Rightarrow> NativePager \<Rightarrow> event list \<Rightarrow> effect list" where
  "run_scroll_effects props st [] = []"
| "run_scroll_effects props st (e # es) =
     scroll_effects props st e @ run_scroll_effects props (fst (step props st e)) es"

text \<open>
  The events that can arrive while one settling phase lasts: everything but the report
  of another phase, which ends it. Scroll events in any number, the platform's
  page-selected event, a programmatic \<^verbatim>\<open>setPage\<close>, a tap on the tab bar and a repeated
  report of the same phase all leave the phase as it is.
\<close>

fun within_phase :: "event \<Rightarrow> bool" where
  "within_phase (PageScrollStateChanged ph) = (ph = ''settling'')"
| "within_phase _ = True"

subsection \<open>The web variant\<close>

text \<open>
  \<^verbatim>\<open>scrollYs.current\<close> is an array of \<^verbatim>\<open>number | null\<close> written and read at page
  indices; a slot never written reads as \<^verbatim>\<open>undefined\<close>. It is a map from indices to
  optional numbers: \<open>None\<close> is \<^verbatim>\<open>undefined\<close>, \<open>Some None\<close> is \<^verbatim>\<open>null\<close>.
\<close>

record WebPager = Pager +
  scrollYs :: "int \<rightharpoonup> real option"

text \<open>
  What the handler reads from the browser: \<^verbatim>\<open>window.scrollY\<close>, and the top of the
  anchor element's bounding rectangle when \<^verbatim>\<open>anchorRef.current\<close> is set.
\<close>

record Window =
  scrollY :: real
  anchor :: "real option"

definition Pager_web :: "Props \<Rightarrow> WebPager" where
  "Pager_web props = \<lparr>selectedPage = initialPage_of props, scrollYs = Map.empty\<rparr>"

definition setPage_web :: "WebPager \<Rightarrow> int \<Rightarrow> WebPager \<times> effect list" where
  "setPage_web st index = (st\<lparr>selectedPage := index\<rparr>, [])"

definition anchorTop :: "Window \<Rightarrow> real" where
  "anchorTop w = (case anchor w of Some y \<Rightarrow> y | None \<Rightarrow> - scrollY w)"

definition isSticking :: "Window \<Rightarrow> bool" where
  "isSticking w \<longleftrightarrow> anchorTop w \<le> 5"

definition onTabBarSelect_web :: "Props \<Rightarrow> Window \<Rightarrow> WebPager \<Rightarrow> int \<Rightarrow> WebPager \<times> effect list" where
  "onTabBarSelect_web props w st index =
     (let st1 = st\<lparr>scrollYs := (scrollYs st)(selectedPage st \<mapsto>
                   (if isSticking w then Some (scrollY w) else None))\<rparr>;
          st2 = st1\<lparr>selectedPage := index\<rparr>;
          fx = opt_call (has_onPageSelected props) (OnPageSelected index) @
               opt_call (has_onPageSelecting props) (OnPageSelecting index)
      in (st2,
          fx @ (if isSticking w then
                  (case scrollYs st2 index of
                     Some (Some restoredScrollY) \<Rightarrow> [WindowScrollTo 0 restoredScrollY]
                   | _ \<Rightarrow> [WindowScrollTo 0 (scrollY w + anchorTop w)])
                else [])))"

section \<open>Properties of the id generator\<close>

subsection \<open>The increment loop\<close>

lemma increment_from_carry:
  "i \<le> length xs \<Longrightarrow> increment_from n i xs = take i xs @ carry n (drop i xs)"
proof (induction n i xs rule: increment_from.induct)
  case (1 n i xs)
  show ?case
  proof (cases "i < length xs")
    case False
    with "1.prems" show ?thesis
      by (subst increment_from.simps) simp
  next
    case True
    then have d: "drop i xs = xs ! i # drop (Suc i) xs"
      by (simp add: Cons_nth_drop_Suc)
    show ?thesis
    proof (cases "xs ! i + 1 \<ge> n")
      case False
      with True d show ?thesis
        by (simp add: increment_from.simps [of n i xs] upd_conv_take_nth_drop)
    next
      case ge: True
      have "increment_from n i xs = increment_from n (i + 1) (xs[i := 0])"
        using True ge by (simp add: increment_from.simps [of n i xs])
      also have "\<dots> = take (i + 1) (xs[i := 0]) @ carry n (drop (i + 1) (xs[i := 0]))"
        using "1.IH" [OF True refl refl ge] True by simp
      also have "\<dots> = take i xs @ carry n (drop i xs)"
        using True ge d by (simp add: take_Suc_conv_app_nth)
      finally show ?thesis .
    qed
  qed
qed

lemma nextId_increment: "nextId (increment g) = carry (length (chars g)) (nextId g)"
  by (simp add: increment_def increment_from_carry)

lemma chars_increment: "chars (increment g) = chars g"
  by (simp add: increment_def)

lemma bval_carry: "list_all (\<lambda>d. d < n) ds \<Longrightarrow> bval n (carry n ds) = bval n ds + 1"
  by (induction ds) (auto simp: bval_def)

lemma carry_digits:
  "0 < n \<Longrightarrow> list_all (\<lambda>d. d < n) ds \<Longrightarrow> list_all (\<lambda>d. d < n) (carry n ds)"
  by (induction ds) auto

lemma carry_nonempty: "carry n ds \<noteq> []"
  by (cases ds) auto

lemma hd_carry:
  assumes "ds \<noteq> []" and "hd ds < n"
  shows "hd (carry n ds) = (hd ds + 1) mod n"
proof -
  obtain d ds' where ds: "ds = d # ds'"
    using assms(1) by (cases ds) auto
  show ?thesis
  proof (cases "n \<le> d + 1")
    case True
    with assms(2) ds have "d + 1 = n" by simp
    with ds show ?thesis by auto
  next
    case False
    with ds show ?thesis by simp
  qed
qed

subsection \<open>The generator after \<open>k\<close> calls\<close>

lemma after_calls_Suc_right: "after_calls (Suc k) g = increment (after_calls k g)"
  by (induction k arbitrary: g) (simp_all add: next_id_def)

lemma chars_after_calls: "chars (after_calls k g) = chars g"
  by (induction k arbitrary: g) (simp_all add: next_id_def chars_increment)

lemma digits_ok_increment: "chars g \<noteq> [] \<Longrightarrow> digits_ok g \<Longrightarrow> digits_ok (increment g)"
  unfolding digits_ok_def nextId_increment chars_increment
  by (rule carry_digits) simp_all

lemma digits_ok_after_calls:
  "chars g \<noteq> [] \<Longrightarrow> digits_ok g \<Longrightarrow> digits_ok (after_calls k g)"
  by (induction k arbitrary: g) (simp_all add: next_id_def chars_increment digits_ok_increment)

text \<open>Each call advances the value of the digit sequence by one.\<close>

lemma bval_after_calls:
  "chars g \<noteq> [] \<Longrightarrow> digits_ok g \<Longrightarrow>
   bval (length (chars g)) (nextId (after_calls k g)) = bval (length (chars g)) (nextId g) + k"
proof (induction k)
  case 0
  then show ?case by simp
next
  case (Suc k)
  have "digits_ok (after_calls k g)"
    using Suc.prems by (rule digits_ok_after_calls)
  then have "bval (length (chars g)) (nextId (increment (after_calls k g)))
      = bval (length (chars g)) (nextId (after_calls k g)) + 1"
    unfolding nextId_increment digits_ok_def chars_after_calls by (rule bval_carry)
  with Suc show ?case
    unfolding after_calls_Suc_right by simp
qed

lemma single_digit_states:
  "k < length (chars g) \<Longrightarrow> nextId g = [0] \<Longrightarrow> nextId (after_calls k g) = [k]"
proof (induction k)
  case 0
  then show ?case by simp
next
  case (Suc k)
  then have "nextId (after_calls k g) = [k]" by simp
  with Suc.prems show ?case
    unfolding after_calls_Suc_right nextId_increment chars_after_calls by simp
qed

lemma first_carry_state:
  assumes "chars g \<noteq> []" "nextId g = [0]"
  shows "nextId (after_calls (length (chars g)) g) = [0, 0]"
proof -
  obtain m where m: "length (chars g) = Suc m"
    using assms(1) by (cases "chars g") auto
  have "nextId (after_calls m g) = [m]"
    using assms(2) m by (simp add: single_digit_states)
  then show ?thesis
    unfolding m after_calls_Suc_right nextId_increment chars_after_calls by (simp add: m)
qed

lemma hd_after_calls:
  assumes ne: "chars g \<noteq> []" and ok: "digits_ok g" and nn: "nextId g \<noteq> []"
  shows "nextId (after_calls k g) \<noteq> [] \<and>
         hd (nextId (after_calls k g)) = (hd (nextId g) + k) mod length (chars g)"
proof (induction k)
  case 0
  from ok nn have "hd (nextId g) < length (chars g)"
    by (cases "nextId g") (simp_all add: digits_ok_def)
  with nn show ?case by simp
next
  case (Suc k)
  let ?ds = "nextId (after_calls k g)"
  have "digits_ok (after_calls k g)" using ne ok by (rule digits_ok_after_calls)
  with Suc have lt: "hd ?ds < length (chars g)"
    by (cases ?ds) (simp_all add: digits_ok_def chars_after_calls)
  have "hd (carry (length (chars g)) ?ds) = (hd ?ds + 1) mod length (chars g)"
    using Suc lt by (simp add: hd_carry)
  with Suc show ?case
    unfolding after_calls_Suc_right nextId_increment chars_after_calls
    by (simp add: carry_nonempty mod_Suc_eq)
qed

subsection \<open>Rendering\<close>

lemma unshift_all_render:
  "list_all (\<lambda>d. d < length cs) ds \<Longrightarrow>
   concat (unshift_all cs ds r) = map (\<lambda>d. cs ! d) (rev ds) @ concat r"
  by (induction ds arbitrary: r) (simp_all add: char_at_def)

lemma nth_output_render:
  "chars g \<noteq> [] \<Longrightarrow> digits_ok g \<Longrightarrow>
   nth_output g k = map (\<lambda>d. chars g ! d) (rev (nextId (after_calls k g)))"
  using digits_ok_after_calls [of g k]
    unshift_all_render [of "chars g" "nextId (after_calls k g)" "[]"]
  by (simp add: nth_output_def next_id_def digits_ok_def chars_after_calls)

lemma outputs_nth_output: "outputs N g = map (nth_output g) [0..<N]"
proof (induction N arbitrary: g)
  case 0
  then show ?case by simp
next
  case (Suc N)
  show ?case
    using Suc.IH [of "snd (next_id g)"]
    by (simp add: map_upt_Suc nth_output_def del: upt_Suc)
qed

lemma map_nth_inj:
  assumes "distinct cs"
    and "list_all (\<lambda>d. d < length cs) xs" and "list_all (\<lambda>d. d < length cs) ys"
    and eq: "map (\<lambda>d. cs ! d) xs = map (\<lambda>d. cs ! d) ys"
  shows "xs = ys"
proof -
  have "inj_on (nth cs) (set xs \<union> set ys)"
    using assms(1-3) by (intro inj_on_nth) (auto simp: list_all_iff)
  with eq show ?thesis by (rule map_inj_on)
qed

text \<open>
  For any alphabet of pairwise distinct characters, two calls that return the same string
  are the same call: equal strings come from equal digit sequences, and the value of the
  digit sequence grows with every call.
\<close>

lemma nth_output_inj:
  assumes ne: "chars g \<noteq> []" and ok: "digits_ok g" and dist: "distinct (chars g)"
    and eq: "nth_output g i = nth_output g j"
  shows "i = j"
proof -
  let ?n = "length (chars g)"
  let ?di = "nextId (after_calls i g)" and ?dj = "nextId (after_calls j g)"
  have m: "map (\<lambda>d. chars g ! d) (rev ?di) = map (\<lambda>d. chars g ! d) (rev ?dj)"
    using eq unfolding nth_output_render [OF ne ok] .
  have bi: "list_all (\<lambda>d. d < ?n) (rev ?di)"
    using digits_ok_after_calls [OF ne ok, of i] by (simp add: digits_ok_def chars_after_calls)
  have bj: "list_all (\<lambda>d. d < ?n) (rev ?dj)"
    using digits_ok_after_calls [OF ne ok, of j] by (simp add: digits_ok_def chars_after_calls)
  have "rev ?di = rev ?dj"
    by (rule map_nth_inj [OF dist bi bj m])
  then have "bval ?n ?di = bval ?n ?dj"
    by simp
  then show ?thesis
    unfolding bval_after_calls [OF ne ok] by simp
qed

lemma index_of_nth: "distinct cs \<Longrightarrow> d < length cs \<Longrightarrow> index_of cs (cs ! d) = d"
proof (induction cs arbitrary: d)
  case Nil
  then show ?case by simp
next
  case (Cons c cs)
  then show ?case
    by (cases d) (auto simp: index_of_def)
qed

lemma parse_render:
  "distinct cs \<Longrightarrow> list_all (\<lambda>d. d < length cs) ds \<Longrightarrow>
   map (index_of cs) (map (\<lambda>d. cs ! d) ds) = ds"
  by (induction ds) (simp_all add: index_of_nth)

subsection \<open>The default generator\<close>

lemma distinct_default_chars: "distinct default_chars"
  by (simp add: default_chars_def)

lemma length_default_chars: "length default_chars = 52"
  by (simp add: default_chars_def)

lemma default_chars_nonempty: "default_chars \<noteq> []"
  by (simp add: default_chars_def)

lemma chars_new: "chars new_StringIdGenerator = default_chars"
  by (simp add: new_StringIdGenerator_def new_StringIdGenerator_with_def)

lemma nextId_new: "nextId new_StringIdGenerator = [0]"
  by (simp add: new_StringIdGenerator_def new_StringIdGenerator_with_def)

lemma digits_ok_new: "digits_ok new_StringIdGenerator"
  by (simp add: digits_ok_def chars_new nextId_new length_default_chars)

text \<open>
  Claim C2, as amended. The default alphabet has 52 characters (the lower-case letters,
  then the upper-case letters; no digits). A freshly constructed generator returns a
  one-character string on each of its first 52 calls, and a two-character string for the
  first time on its 53rd call (call number 52, counting from 0).
\<close>

theorem default_alphabet_first_two_chars:
  "length (chars new_StringIdGenerator) = 52 \<and>
   (\<forall>k<52. length (nth_output new_StringIdGenerator k) = 1) \<and>
   length (nth_output new_StringIdGenerator 52) = 2"
proof (intro conjI allI impI)
  show "length (chars new_StringIdGenerator) = 52"
    by (simp add: chars_new length_default_chars)
next
  fix k :: nat
  assume "k < 52"
  then have "nextId (after_calls k new_StringIdGenerator) = [k]"
    by (simp add: single_digit_states chars_new length_default_chars nextId_new)
  then show "length (nth_output new_StringIdGenerator k) = 1"
    by (simp add: nth_output_render chars_new default_chars_nonempty digits_ok_new)
next
  have "nextId (after_calls (length (chars new_StringIdGenerator)) new_StringIdGenerator) = [0, 0]"
    by (rule first_carry_state) (simp_all add: chars_new default_chars_nonempty nextId_new)
  then show "length (nth_output new_StringIdGenerator 52) = 2"
    by (simp add: nth_output_render chars_new default_chars_nonempty digits_ok_new
        length_default_chars)
qed

text \<open>Claim C2, witness: the 52nd call (number 51) still returns one character.\<close>

theorem default_alphabet_first_two_chars_witness:
  "(51::nat) < 52 \<and> length (nth_output new_StringIdGenerator 51) = 1"
  using default_alphabet_first_two_chars by simp

text \<open>
  Claim C2, counterexample to the claim as stated: the alphabet does not have 62
  characters, and call number 52, which is among the first 62, does not return a
  one-character string.
\<close>

theorem default_alphabet_not_62:
  "length (chars new_StringIdGenerator) \<noteq> 62 \<and>
   length (nth_output new_StringIdGenerator 52) \<noteq> 1"
  by code_simp

text \<open>
  Claim C4. The module constructs its one generator with the default alphabet (the class
  is not exported). For every \<open>N\<close>, the strings returned by its first \<open>N\<close> calls are
  pairwise distinct.
\<close>

theorem outputs_distinct: "distinct (outputs N new_StringIdGenerator)"
proof -
  have "inj_on (nth_output new_StringIdGenerator) (set [0..<N])"
    by (rule inj_onI, rule nth_output_inj [of new_StringIdGenerator])
       (simp_all add: chars_new digits_ok_new distinct_default_chars default_chars_nonempty)
  then show ?thesis
    by (simp add: outputs_nth_output distinct_map)
qed

text \<open>
  Claim C7. For every call number \<open>N\<close>, mapping the characters of the string returned by
  call \<open>N\<close> back to their indices in the alphabet and reversing the result into storage
  order yields exactly the digit sequence the generator held when it made that call.
\<close>

theorem parse_output_roundtrip:
  "spec_parse (chars new_StringIdGenerator) (nth_output new_StringIdGenerator N)
     = nextId (after_calls N new_StringIdGenerator)"
proof -
  let ?ds = "nextId (after_calls N new_StringIdGenerator)"
  have "digits_ok (after_calls N new_StringIdGenerator)"
    by (rule digits_ok_after_calls) (simp_all add: chars_new default_chars_nonempty digits_ok_new)
  then have "list_all (\<lambda>d. d < length default_chars) (rev ?ds)"
    by (simp add: digits_ok_def chars_after_calls chars_new)
  with distinct_default_chars
  have "map (index_of default_chars) (map (\<lambda>d. default_chars ! d) (rev ?ds)) = rev ?ds"
    by (rule parse_render)
  then show ?thesis
    by (simp add: spec_parse_def nth_output_render chars_new default_chars_nonempty
        digits_ok_new rev_map)
qed

text \<open>
  Claim C8, as amended. A fresh generator returns each character of the alphabet in
  order, from \<open>''a''\<close> to \<open>''Z''\<close>, then \<open>''aa''\<close>, then \<open>''ab''\<close>; and at every call the
  last character of the output is the one of the least significant digit, which steps
  through the alphabet cyclically from call to call.
\<close>

theorem first_outputs:
  "outputs 54 new_StringIdGenerator = map (\<lambda>c. [c]) default_chars @ [''aa'', ''ab''] \<and>
   last (nth_output new_StringIdGenerator k) = default_chars ! (k mod 52)"
proof
  show "outputs 54 new_StringIdGenerator = map (\<lambda>c. [c]) default_chars @ [''aa'', ''ab'']"
    by code_simp
next
  have "nextId (after_calls k new_StringIdGenerator) \<noteq> [] \<and>
        hd (nextId (after_calls k new_StringIdGenerator)) = k mod 52"
    using hd_after_calls [of new_StringIdGenerator k]
    by (simp add: chars_new default_chars_nonempty digits_ok_new nextId_new length_default_chars)
  then show "last (nth_output new_StringIdGenerator k) = default_chars ! (k mod 52)"
    by (simp add: nth_output_render chars_new default_chars_nonempty digits_ok_new
        last_map last_rev)
qed

text \<open>
  Claim C8, counterexample to the claim as stated: the output after \<open>''aa''\<close> (call
  number 53) is \<open>''ab''\<close>, not \<open>''ba''\<close>.
\<close>

theorem output_after_aa_is_not_ba:
  "nth_output new_StringIdGenerator 52 = ''aa'' \<and>
   nth_output new_StringIdGenerator 53 = ''ab'' \<and>
   nth_output new_StringIdGenerator 53 \<noteq> ''ba''"
  by code_simp

section \<open>Properties of the pager\<close>

subsection \<open>Notifications during a settling phase\<close>

lemma filter_opt_call:
  "filter is_selecting (opt_call b e) = (if b \<and> is_selecting e then [e] else [])"
  by (simp add: opt_call_def)

text \<open>
  While the phase is settling, a scroll event either leaves the recorded direction alone
  and announces nothing, or clears the direction and announces at most one page.
\<close>

lemma onPageScroll_settling:
  assumes "scrollState st = ''settling''"
  shows "scrollState (fst (onPageScroll props st position offset)) = ''settling'' \<and>
         (if lastDirection (fst (onPageScroll props st position offset)) = lastDirection st
          then filter is_selecting (snd (onPageScroll props st position offset)) = []
          else lastDirection (fst (onPageScroll props st position offset)) = 0 \<and>
               length (filter is_selecting (snd (onPageScroll props st position offset))) \<le> 1)"
  using assms by (simp add: onPageScroll_def filter_opt_call)

lemma step_settling:
  assumes "scrollState st = ''settling''" and "within_phase e"
  shows "scrollState (fst (step props st e)) = ''settling'' \<and>
         (if lastDirection (fst (step props st e)) = lastDirection st
          then filter is_selecting (scroll_effects props st e) = []
          else lastDirection (fst (step props st e)) = 0 \<and>
               length (filter is_selecting (scroll_effects props st e)) \<le> 1)"
proof (cases e)
  case (PageScroll position offset)
  show ?thesis
    unfolding PageScroll step.simps scroll_effects.simps
    by (rule onPageScroll_settling [OF assms(1)])
next
  case (PageScrollStateChanged ph)
  with assms(2) show ?thesis
    by (simp add: handlePageScrollStateChanged_def)
next
  case (PageSelected position)
  with assms(1) show ?thesis
    by (simp add: onPageSelectedInner_def)
next
  case (SetPage index)
  with assms(1) show ?thesis
    by (simp add: setPage_native_def)
next
  case (TabBarSelect index)
  with assms(1) show ?thesis
    by (simp add: onTabBarSelect_native_def)
qed

text \<open>Once the direction is cleared, the scroll handler announces no page for the rest of the settling phase.\<close>

lemma cleared_direction_silent:
  "scrollState st = ''settling'' \<Longrightarrow> lastDirection st = 0 \<Longrightarrow> list_all within_phase evs \<Longrightarrow>
   filter is_selecting (run_scroll_effects props st evs) = []"
proof (induction evs arbitrary: st)
  case Nil
  then show ?case by simp
next
  case (Cons e es)
  from Cons.prems have w: "within_phase e" and ws: "list_all within_phase es" by simp_all
  from step_settling [OF Cons.prems(1) w, of props] Cons.prems(2)
  have s: "scrollState (fst (step props st e)) = ''settling''"
    and d: "lastDirection (fst (step props st e)) = 0"
    and f: "filter is_selecting (scroll_effects props st e) = []"
    by (auto split: if_splits)
  from Cons.IH [OF s d ws] f show ?case
    by simp
qed

text \<open>
  Apart from a tap on the tab bar, which announces the tapped page by itself, only the
  scroll handler announces a page: in a run without taps, the announcements of the run
  are those of the scroll handler.
\<close>

lemma selecting_of_run:
  "list_all (\<lambda>e. case e of TabBarSelect _ \<Rightarrow> False | _ \<Rightarrow> True) evs \<Longrightarrow>
   filter is_selecting (snd (run props st evs)) =
   filter is_selecting (run_scroll_effects props st evs)"
proof (induction evs arbitrary: st)
  case Nil
  then show ?case by simp
next
  case (Cons e es)
  then have "filter is_selecting (snd (step props st e))
           = filter is_selecting (scroll_effects props st e)"
    by (cases e)
       (simp_all add: handlePageScrollStateChanged_def onPageSelectedInner_def
          setPage_native_def pagerView_setPage_def filter_opt_call)
  with Cons show ?case
    by (simp add: split_beta)
qed

text \<open>
  Claim C5. From a state whose phase is settling, and for any sequence of events that
  arrive before the phase changes (scroll events in any number, with any of the other
  events among them, taps on the tab bar included), the scroll handler, which is the
  disambiguator, announces \<^verbatim>\<open>onPageSelecting\<close> at most once.
\<close>

theorem at_most_one_selecting_per_settle:
  assumes "scrollState st = ''settling''" and "list_all within_phase evs"
  shows "length (filter is_selecting (run_scroll_effects props st evs)) \<le> 1"
  using assms
proof (induction evs arbitrary: st)
  case Nil
  then show ?case by simp
next
  case (Cons e es)
  from Cons.prems have w: "within_phase e" and ws: "list_all within_phase es" by simp_all
  let ?st = "fst (step props st e)"
  note st = step_settling [OF Cons.prems(1) w, of props]
  then have s: "scrollState ?st = ''settling''" by simp
  show ?case
  proof (cases "lastDirection ?st = lastDirection st")
    case True
    with st have "filter is_selecting (scroll_effects props st e) = []" by simp
    with Cons.IH [OF s ws] show ?thesis
      by simp
  next
    case False
    with st have d: "lastDirection ?st = 0"
      and f: "length (filter is_selecting (scroll_effects props st e)) \<le> 1" by simp_all
    from cleared_direction_silent [OF s d ws] f show ?thesis
      by simp
  qed
qed

text \<open>
  Claim C5, witness: a forward gesture released at offset \<open>1/5\<close>, followed by a growing
  offset, a tap on the tab bar, two more growing offsets and the platform's page-selected
  event.
\<close>

theorem at_most_one_selecting_per_settle_witness:
  "scrollState \<lparr>selectedPage = 0, lastOffset = 1 / 5, lastDirection = 1,
                scrollState = ''settling'', pagerView = True\<rparr> = ''settling'' \<and>
   list_all within_phase
     [PageScroll 0 (1 / 2), TabBarSelect 2, PageScroll 0 (7 / 10), PageScroll 0 (9 / 10),
      PageSelected 1] \<and>
   length (filter is_selecting (run_scroll_effects all_callbacks
     \<lparr>selectedPage = 0, lastOffset = 1 / 5, lastDirection = 1,
      scrollState = ''settling'', pagerView = True\<rparr>
     [PageScroll 0 (1 / 2), TabBarSelect 2, PageScroll 0 (7 / 10), PageScroll 0 (9 / 10),
      PageSelected 1]))
     \<le> 1"
  using at_most_one_selecting_per_settle
    [of "\<lparr>selectedPage = 0, lastOffset = 1 / 5, lastDirection = 1,
          scrollState = ''settling'', pagerView = True\<rparr>"
        "[PageScroll 0 (1 / 2), TabBarSelect 2, PageScroll 0 (7 / 10), PageScroll 0 (9 / 10),
          PageSelected 1]"
        all_callbacks]
  by simp

subsection \<open>Single events\<close>

text \<open>
  Claim C6. A scroll event with offset 0 returns the state as it was (so
  \<open>selectedPage\<close>, \<open>lastOffset\<close> and \<open>lastDirection\<close> are unchanged) and announces
  nothing, and so does any sequence of such events.
\<close>

theorem zero_offset_ignored:
  "onPageScroll props st position 0 = (st, []) \<and>
   run props st (map (\<lambda>position. PageScroll position 0) ps) = (st, [])"
proof
  show "onPageScroll props st position 0 = (st, [])"
    by (simp add: onPageScroll_def)
  show "run props st (map (\<lambda>position. PageScroll position 0) ps) = (st, [])"
    by (induction ps) (simp_all add: onPageScroll_def)
qed

text \<open>
  Claim C3. If a scroll event with a nonzero offset arrives while the phase is settling,
  the recorded direction is forward (\<open>1\<close>) and the offset is greater than the last one,
  then the handler calls \<^verbatim>\<open>onPageSelecting\<close> once, with \<open>position + 1\<close> (the callback
  is optional; an absent one is not called), commits \<open>selectedPage = position + 1\<close> and
  returns with the direction reset to \<open>0\<close>.
\<close>

theorem settling_forward_commit:
  assumes "offset \<noteq> 0" and "scrollState st = ''settling''" and "lastDirection st = 1"
    and "offset > lastOffset st"
  shows "onPageScroll props st position offset =
     (st\<lparr>selectedPage := position + 1, lastDirection := 0, lastOffset := offset\<rparr>,
      if has_onPageSelecting props then [OnPageSelecting (position + 1)] else [])"
  using assms by (simp add: onPageScroll_def opt_call_def)

text \<open>Claim C3, witness: settling on page 3 with the offset growing from \<open>1/4\<close> to \<open>1/2\<close>.\<close>

theorem settling_forward_commit_witness:
  "(1 / 2 :: real) \<noteq> 0 \<and>
   scrollState \<lparr>selectedPage = 3, lastOffset = 1 / 4, lastDirection = 1,
                scrollState = ''settling'', pagerView = True\<rparr> = ''settling'' \<and>
   lastDirection \<lparr>selectedPage = 3, lastOffset = 1 / 4, lastDirection = 1,
                  scrollState = ''settling'', pagerView = True\<rparr> = 1 \<and>
   lastOffset \<lparr>selectedPage = 3, lastOffset = 1 / 4, lastDirection = 1,
               scrollState = ''settling'', pagerView = True\<rparr> < 1 / 2 \<and>
   onPageScroll all_callbacks
     \<lparr>selectedPage = 3, lastOffset = 1 / 4, lastDirection = 1,
      scrollState = ''settling'', pagerView = True\<rparr> 3 (1 / 2)
   = (\<lparr>selectedPage = 4, lastOffset = 1 / 2, lastDirection = 0,
       scrollState = ''settling'', pagerView = True\<rparr>, [OnPageSelecting 4])"
  using settling_forward_commit
    [of "1 / 2" "\<lparr>selectedPage = 3, lastOffset = 1 / 4, lastDirection = 1,
          scrollState = ''settling'', pagerView = True\<rparr>" all_callbacks 3]
  by (simp add: all_callbacks_def)

subsection \<open>Programmatic selection\<close>

text \<open>
  Claim C1, as amended. In the web variant \<^verbatim>\<open>setPage(k)\<close> commits
  \<open>selectedPage = k\<close> at once, whatever the state, and touches nothing else. In the
  native variant \<^verbatim>\<open>setPage(k)\<close> changes no state of the component and calls no
  callback: it hands the command to the platform's pager view (when that is mounted);
  \<open>selectedPage = k\<close> is committed and \<^verbatim>\<open>onPageSelected(k)\<close> called when the platform
  then delivers its page-selected event for \<open>k\<close>, whatever the scroll phase and the
  recorded direction and offset, which that handler leaves as they are.
\<close>

theorem setPage_commit_paths:
  "fst (setPage_web ws k) = ws\<lparr>selectedPage := k\<rparr> \<and>
   setPage_native st k = (st, if pagerView st then [PagerViewSetPage k] else []) \<and>
   onPageSelectedInner props st k =
     (st\<lparr>selectedPage := k\<rparr>, if has_onPageSelected props then [OnPageSelected k] else [])"
  by (simp add: setPage_web_def setPage_native_def pagerView_setPage_def
      onPageSelectedInner_def opt_call_def)

text \<open>
  Claim C1, counterexample to the claim as stated: on a mounted native pager with every
  callback supplied, \<^verbatim>\<open>setPage(1)\<close> leaves \<open>selectedPage\<close> at 0 and does not call
  \<^verbatim>\<open>onPageSelected(1)\<close>; on the web pager \<^verbatim>\<open>setPage(1)\<close> does not call it either.
\<close>

theorem setPage_native_commits_nothing:
  "selectedPage (fst (setPage_native (mounted (Pager_native all_callbacks)) 1)) \<noteq> 1 \<and>
   OnPageSelected 1 \<notin> set (snd (setPage_native (mounted (Pager_native all_callbacks)) 1)) \<and>
   OnPageSelected 1 \<notin> set (snd (setPage_web (Pager_web all_callbacks) 1))"
  by (simp add: setPage_web_def setPage_native_def pagerView_setPage_def mounted_def
      Pager_native_def)

subsection \<open>The initial state\<close>

text \<open>
  Claim C10. For every value \<open>p\<close> of the \<^verbatim>\<open>initialPage\<close> prop, before any event the
  native pager's \<open>selectedPage\<close> is 0 and the web pager's is \<open>p\<close>, so that the two
  differ whenever \<open>p\<close> is not 0.
\<close>

theorem initial_selectedPage:
  assumes "initialPage props = Some p"
  shows "selectedPage (Pager_native props) = 0 \<and>
         selectedPage (Pager_web props) = p \<and>
         (p \<noteq> 0 \<longrightarrow> selectedPage (Pager_native props) \<noteq> selectedPage (Pager_web props))"
  using assms by (simp add: Pager_native_def Pager_web_def initialPage_of_def)

text \<open>Claim C10, witness: every callback supplied and \<^verbatim>\<open>initialPage = 2\<close>.\<close>

theorem initial_selectedPage_witness:
  "initialPage (all_callbacks\<lparr>initialPage := Some 2\<rparr>) = Some 2 \<and>
   (2::int) \<noteq> 0 \<and>
   selectedPage (Pager_native (all_callbacks\<lparr>initialPage := Some 2\<rparr>)) = 0 \<and>
   selectedPage (Pager_web (all_callbacks\<lparr>initialPage := Some 2\<rparr>)) = 2 \<and>
   selectedPage (Pager_native (all_callbacks\<lparr>initialPage := Some 2\<rparr>))
     \<noteq> selectedPage (Pager_web (all_callbacks\<lparr>initialPage := Some 2\<rparr>))"
  using initial_selectedPage [of "all_callbacks\<lparr>initialPage := Some 2\<rparr>" 2]
  by simp

subsection \<open>Selecting a tab in the web variant\<close>

text \<open>
  Claim C9. In the web variant, \<^verbatim>\<open>onSelect(index)\<close> always commits \<open>index\<close>. When the
  anchor's top (or, without an anchor, \<open>- scrollY\<close>) is at most 5, the current
  \<^verbatim>\<open>scrollY\<close> is recorded for the outgoing page and, after the callbacks of the commit,
  the window is scrolled to the offset recorded for the incoming page if there is one
  and to \<open>scrollY + anchorTop\<close> otherwise. When it is greater than 5, \<^verbatim>\<open>null\<close> is
  recorded for the outgoing page and the window is not scrolled. The record of an
  incoming page other than the outgoing one is the one it had before the call.
\<close>

theorem onTabBarSelect_web_scroll:
  "selectedPage (fst (onTabBarSelect_web props w st index)) = index \<and>
   (anchorTop w \<le> 5 \<longrightarrow>
      scrollYs (fst (onTabBarSelect_web props w st index))
        = (scrollYs st)(selectedPage st \<mapsto> Some (scrollY w)) \<and>
      snd (onTabBarSelect_web props w st index)
        = opt_call (has_onPageSelected props) (OnPageSelected index) @
          opt_call (has_onPageSelecting props) (OnPageSelecting index) @
          [WindowScrollTo 0
            (case scrollYs (fst (onTabBarSelect_web props w st index)) index of
               Some (Some restoredScrollY) \<Rightarrow> restoredScrollY
             | _ \<Rightarrow> scrollY w + anchorTop w)]) \<and>
   (\<not> anchorTop w \<le> 5 \<longrightarrow>
      scrollYs (fst (onTabBarSelect_web props w st index))
        = (scrollYs st)(selectedPage st \<mapsto> None) \<and>
      snd (onTabBarSelect_web props w st index)
        = opt_call (has_onPageSelected props) (OnPageSelected index) @
          opt_call (has_onPageSelecting props) (OnPageSelecting index)) \<and>
   (index \<noteq> selectedPage st \<longrightarrow>
      scrollYs (fst (onTabBarSelect_web props w st index)) index = scrollYs st index)"
  by (simp add: onTabBarSelect_web_def isSticking_def Let_def split: option.split)

text \<open>
  Claim C9, witness: leaving page 0 for page 1, whose offset 120 was recorded before,
  once with the anchor at the top of the viewport and once with it 200 pixels below.
\<close>

theorem onTabBarSelect_web_scroll_witness:
  "anchorTop \<lparr>scrollY = 300, anchor = Some 0\<rparr> \<le> 5 \<and>
   (1::int) \<noteq> selectedPage \<lparr>selectedPage = 0, scrollYs = [1 \<mapsto> Some 120]\<rparr> \<and>
   snd (onTabBarSelect_web all_callbacks \<lparr>scrollY = 300, anchor = Some 0\<rparr>
          \<lparr>selectedPage = 0, scrollYs = [1 \<mapsto> Some 120]\<rparr> 1)
     = [OnPageSelected 1, OnPageSelecting 1, WindowScrollTo 0 120] \<and>
   scrollYs (fst (onTabBarSelect_web all_callbacks \<lparr>scrollY = 300, anchor = Some 0\<rparr>
          \<lparr>selectedPage = 0, scrollYs = [1 \<mapsto> Some 120]\<rparr> 1)) 0 = Some (Some 300) \<and>
   \<not> anchorTop \<lparr>scrollY = 0, anchor = Some 200\<rparr> \<le> 5 \<and>
   snd (onTabBarSelect_web all_callbacks \<lparr>scrollY = 0, anchor = Some 200\<rparr>
          \<lparr>selectedPage = 0, scrollYs = [1 \<mapsto> Some 120]\<rparr> 1)
     = [OnPageSelected 1, OnPageSelecting 1] \<and>
   scrollYs (fst (onTabBarSelect_web all_callbacks \<lparr>scrollY = 0, anchor = Some 200\<rparr>
          \<lparr>selectedPage = 0, scrollYs = [1 \<mapsto> Some 120]\<rparr> 1)) 0 = Some None"
  using onTabBarSelect_web_scroll
      [of all_callbacks "\<lparr>scrollY = 300, anchor = Some 0\<rparr>"
          "\<lparr>selectedPage = 0, scrollYs = [1 \<mapsto> Some 120]\<rparr>" 1]
    onTabBarSelect_web_scroll
      [of all_callbacks "\<lparr>scrollY = 0, anchor = Some 200\<rparr>"
          "\<lparr>selectedPage = 0, scrollYs = [1 \<mapsto> Some 120]\<rparr>" 1]
  by (simp add: anchorTop_def all_callbacks_def opt_call_def)

end
